theory Spec2Isabelle
  imports Main
begin


section \<open>The graph engine of Graph.h\<close>

text \<open>
  The C++ header defines a linked stack, a linked queue, a per-vertex adjacency list, an
  array-backed binary min-heap and the class \<open>Graph\<close> with \<open>addEdge\<close>, \<open>BFS\<close>,
  \<open>DFS\<close>, \<open>PrimsAlgorithm\<close> and \<open>DijkstraAlgorithm\<close>.

  Vertex ids and weights are C++ \<open>int\<close>; they are modelled as \<open>int\<close>. The only
  arithmetic on them is \<open>distBuffer[u] + weight\<close> in Dijkstra's algorithm and
  \<open>vertices * vertices\<close> for the heap capacity. Signed overflow is undefined behaviour in
  C++: where the exact result of one of these two operations is outside the range of
  \<open>int\<close>, the model returns \<open>Inl SignedOverflow\<close> at that operation. Counters and sizes
  that start at 0 and only count are \<open>nat\<close>.

  A read or write outside an array is undefined behaviour in C++. In the traversals it
  is a value of the model: the functions return \<open>Inl OutOfBounds\<close> at the first such
  access, so that "the call returns \<open>Inr\<close>" says that every access was in range.
\<close>

datatype error = OutOfBounds | BadArrayNewLength | SignedOverflow

definition INT_MAX :: int where
  "INT_MAX = 2147483647"

definition INT_MIN :: int where
  "INT_MIN = - 2147483648"

text \<open>The exact result of an \<open>int\<close> operation is representable.\<close>

definition fits_int :: "int \<Rightarrow> bool" where
  "fits_int x \<longleftrightarrow> INT_MIN \<le> x \<and> x \<le> INT_MAX"

text \<open>An index expression \<open>a[i]\<close> with an \<open>int\<close> index is in range for an array of \<open>n\<close> cells.\<close>

definition in_range :: "int \<Rightarrow> nat \<Rightarrow> bool" where
  "in_range i n \<longleftrightarrow> 0 \<le> i \<and> i < int n"

subsection \<open>Stack and Queue\<close>

text \<open>
  A chain of \<open>SNode\<close>s from \<open>front\<close> is the list of its data, top first. \<open>pop\<close> on the
  empty stack does nothing and \<open>top\<close> returns \<open>T()\<close>, which is 0 for \<open>int\<close>.
\<close>

type_synonym Stack = "int list"

definition Stack_push :: "int \<Rightarrow> Stack \<Rightarrow> Stack" where
  "Stack_push v s = v # s"

definition Stack_pop :: "Stack \<Rightarrow> Stack" where
  "Stack_pop s = (case s of [] \<Rightarrow> [] | tempNode # rest \<Rightarrow> rest)"

definition Stack_top :: "Stack \<Rightarrow> int" where
  "Stack_top s = (case s of [] \<Rightarrow> 0 | x # rest \<Rightarrow> x)"

definition Stack_isEmpty :: "Stack \<Rightarrow> bool" where
  "Stack_isEmpty s \<longleftrightarrow> s = []"

text \<open>A chain of \<open>QNode\<close>s from \<open>front\<close> to \<open>rear\<close> is the list of its data, front first.\<close>

type_synonym Queue = "int list"

definition Queue_enqueue :: "int \<Rightarrow> Queue \<Rightarrow> Queue" where
  "Queue_enqueue v q = q @ [v]"

definition Queue_dequeue :: "Queue \<Rightarrow> Queue" where
  "Queue_dequeue q = (case q of [] \<Rightarrow> [] | tempNode # rest \<Rightarrow> rest)"

definition Queue_getFront :: "Queue \<Rightarrow> int" where
  "Queue_getFront q = (case q of [] \<Rightarrow> 0 | x # rest \<Rightarrow> x)"

definition Queue_isEmpty :: "Queue \<Rightarrow> bool" where
  "Queue_isEmpty q \<longleftrightarrow> q = []"

subsection \<open>AdjList\<close>

record Node =
  destination :: int
  weight :: int

text \<open>The chain from \<open>front\<close>; \<open>AddEdge\<close> puts the new node in front in both branches.\<close>

type_synonym AdjList = "Node list"

definition AdjList_AddEdge :: "int \<Rightarrow> int \<Rightarrow> AdjList \<Rightarrow> AdjList" where
  "AdjList_AddEdge dest w l = \<lparr>destination = dest, weight = w\<rparr> # l"

definition getHead :: "AdjList \<Rightarrow> Node list" where
  "getHead l = l"

subsection \<open>Graph: construction and addEdge\<close>

record Graph =
  vertices :: int
  array :: "AdjList list"
  AdjMat :: "int list list"

text \<open>
  \<open>Graph(int v)\<close>: \<open>new AdjList<int>[v]\<close> with a negative \<open>v\<close> throws; otherwise \<open>v\<close>
  empty adjacency lists and a \<open>v\<close> by \<open>v\<close> matrix of zeros, each row an array of its own.
\<close>

definition Graph_new :: "int \<Rightarrow> error + Graph" where
  "Graph_new v =
     (if v < 0 then Inl BadArrayNewLength
      else Inr \<lparr>vertices = v,
                array = replicate (nat v) [],
                AdjMat = replicate (nat v) (replicate (nat v) 0)\<rparr>)"

definition addEdge :: "Graph \<Rightarrow> int \<Rightarrow> int \<Rightarrow> int \<Rightarrow> Graph" where
  "addEdge g src dest w =
     (if src \<ge> 0 \<and> src < vertices g \<and> dest \<ge> 0 \<and> dest < vertices g then
        let a1 = (array g)[nat src := AdjList_AddEdge dest w (array g ! nat src)];
            a2 = a1[nat dest := AdjList_AddEdge src w (a1 ! nat dest)];
            m1 = (AdjMat g)[nat src := (AdjMat g ! nat src)[nat dest := w]];
            m2 = m1[nat dest := (m1 ! nat dest)[nat src := w]]
        in g\<lparr>array := a2, AdjMat := m2\<rparr>
      else g)"

text \<open>A sequence of \<open>addEdge\<close> calls, first call first.\<close>

fun addEdges :: "Graph \<Rightarrow> (int \<times> int \<times> int) list \<Rightarrow> Graph" where
  "addEdges g [] = g"
| "addEdges g ((u, v, w) # es) = addEdges (addEdge g u v w) es"

text \<open>
  The class invariant: the two arrays have \<open>vertices\<close> cells, the matrix is square, and
  every stored destination is a vertex id.
\<close>

definition graph_inv :: "Graph \<Rightarrow> bool" where
  "graph_inv g \<longleftrightarrow>
     0 \<le> vertices g \<and>
     length (array g) = nat (vertices g) \<and>
     length (AdjMat g) = nat (vertices g) \<and>
     list_all (\<lambda>row. length row = nat (vertices g)) (AdjMat g) \<and>
     list_all (list_all (\<lambda>e. 0 \<le> destination e \<and> destination e < vertices g)) (array g)"

subsection \<open>Heap\<close>

record HNode =
  vertex :: int
  key :: int

text \<open>\<open>HNode(T v = T(), T k = T())\<close> with no arguments.\<close>

definition HNode_default :: HNode where
  "HNode_default = \<lparr>vertex = 0, key = 0\<rparr>"

text \<open>
  The heap keeps its entries in \<open>arr[1..size]\<close>; cell 0 is never used. The field
  \<open>size\<close> of the class is \<open>hsize\<close> here. Both \<open>size\<close> and \<open>capacity\<close> are counts that
  never go below 0 (the graph algorithms construct the heap with \<open>vertices * vertices\<close>).
\<close>

record Heap =
  arr :: "HNode list"
  hsize :: nat
  capacity :: nat

function percolateDown :: "Heap \<Rightarrow> nat \<Rightarrow> Heap" where
  "percolateDown h i =
     (let left = 2 * i;
          right = 2 * i + 1;
          smallest = i;
          smallest = (if left \<le> hsize h \<and> key (arr h ! left) < key (arr h ! smallest)
                      then left else smallest);
          smallest = (if right \<le> hsize h \<and> key (arr h ! right) < key (arr h ! smallest)
                      then right else smallest)
      in if smallest \<noteq> i
         then let temp = arr h ! i;
                  a1 = (arr h)[i := arr h ! smallest];
                  a2 = a1[smallest := temp]
              in percolateDown (h\<lparr>arr := a2\<rparr>) smallest
         else h)"
  by pat_completeness auto
termination
  by (relation "measure (\<lambda>(h, i). hsize h - i)") (auto split: if_splits)

function percolateUp :: "Heap \<Rightarrow> nat \<Rightarrow> Heap" where
  "percolateUp h i =
     (let parent = i div 2
      in if i > 1 \<and> key (arr h ! i) < key (arr h ! parent)
         then let temp = arr h ! i;
                  a1 = (arr h)[i := arr h ! parent];
                  a2 = a1[parent := temp]
              in percolateUp (h\<lparr>arr := a2\<rparr>) parent
         else h)"
  by pat_completeness auto
termination
  by (relation "measure (\<lambda>(h, i). i)") auto

declare percolateDown.simps [simp del] percolateUp.simps [simp del]

text \<open>\<open>Heap(int cap)\<close>: \<open>cap + 1\<close> default-constructed cells, size 0.\<close>

definition Heap_new :: "nat \<Rightarrow> Heap" where
  "Heap_new cap = \<lparr>arr = replicate (cap + 1) HNode_default, hsize = 0, capacity = cap\<rparr>"

definition Heap_isEmpty :: "Heap \<Rightarrow> bool" where
  "Heap_isEmpty h \<longleftrightarrow> hsize h = 0"

definition InsertKey :: "Heap \<Rightarrow> int \<Rightarrow> int \<Rightarrow> Heap" where
  "InsertKey h v k =
     (if hsize h \<ge> capacity h then h
      else let h1 = h\<lparr>hsize := hsize h + 1\<rparr>;
               h2 = h1\<lparr>arr := (arr h1)[hsize h1 := \<lparr>vertex = v, key = k\<rparr>]\<rparr>
           in percolateUp h2 (hsize h2))"

text \<open>\<open>ExtractMin\<close> returns the entry and leaves the heap changed: a pair in the model.\<close>

definition ExtractMin :: "Heap \<Rightarrow> HNode \<times> Heap" where
  "ExtractMin h =
     (if hsize h = 0 then (HNode_default, h)
      else let minNode = arr h ! 1;
               h1 = h\<lparr>arr := (arr h)[1 := arr h ! hsize h]\<rparr>;
               h2 = h1\<lparr>hsize := hsize h1 - 1\<rparr>
           in (minNode, percolateDown h2 1))"






subsection \<open>BFS and DFS\<close>

text \<open>
  The inner \<open>while (temp)\<close> of \<open>BFS\<close> walks the adjacency chain of the dequeued vertex;
  \<open>visited[adjVertex]\<close> is read for every node of the chain.
\<close>

fun BFS_adj_loop :: "Node list \<Rightarrow> bool list \<Rightarrow> Queue \<Rightarrow> error + (bool list \<times> Queue)" where
  "BFS_adj_loop [] visited q = Inr (visited, q)"
| "BFS_adj_loop (temp # rest) visited q =
     (let adjVertex = destination temp
      in if \<not> in_range adjVertex (length visited) then Inl OutOfBounds
         else if \<not> visited ! nat adjVertex
              then BFS_adj_loop rest (visited[nat adjVertex := True]) (Queue_enqueue adjVertex q)
              else BFS_adj_loop rest visited q)"

lemma filter_Not_update:
  assumes "i < length v" and "\<not> v ! i"
  shows "Suc (length (filter Not (v[i := True]))) = length (filter Not v)"
proof -
  have "{j. j < length v \<and> \<not> v[i := True] ! j} = {j. j < length v \<and> \<not> v ! j} - {i}"
    using assms by (auto simp: nth_list_update)
  moreover have "i \<in> {j. j < length v \<and> \<not> v ! j}" using assms by simp
  moreover have "finite {j. j < length v \<and> \<not> v ! j}" by simp
  ultimately have "Suc (card {j. j < length v \<and> \<not> v[i := True] ! j}) = card {j. j < length v \<and> \<not> v ! j}"
    by (metis card_Suc_Diff1)
  then show ?thesis
    by (simp add: length_filter_conv_card)
qed

lemma BFS_adj_loop_measure:
  "BFS_adj_loop l visited q = Inr (visited', q') \<Longrightarrow>
   length (filter Not visited') + length q' = length (filter Not visited) + length q \<and>
   length (filter Not visited') \<le> length (filter Not visited)"
proof (induction l arbitrary: visited q)
  case Nil
  then show ?case by simp
next
  case (Cons temp rest)
  show ?case
  proof (cases "visited ! nat (destination temp)")
    case True
    then show ?thesis
      using Cons by (simp add: Let_def split: if_splits)
  next
    case False
    then have r: "in_range (destination temp) (length visited)"
      and c: "BFS_adj_loop rest (visited[nat (destination temp) := True])
               (Queue_enqueue (destination temp) q) = Inr (visited', q')"
      using Cons.prems by (simp_all add: Let_def split: if_splits)
    have "nat (destination temp) < length visited" using r by (auto simp: in_range_def)
    from filter_Not_update [OF this False] Cons.IH [OF c] show ?thesis
      by (simp add: Queue_enqueue_def)
  qed
qed

text \<open>
  The outer \<open>while (!q.isEmpty())\<close>. \<open>count\<close> is the local counter of the function; the
  model returns it beside the buffer, as the number of cells written.
\<close>

function BFS_loop :: "Graph \<Rightarrow> bool list \<Rightarrow> Queue \<Rightarrow> int list \<Rightarrow> nat \<Rightarrow> error + (int list \<times> nat)" where
  "BFS_loop g visited q buffer count =
     (if Queue_isEmpty q then Inr (buffer, count)
      else
        let currVertex = Queue_getFront q
        in if \<not> count < length buffer then Inl OutOfBounds
           else
             let buffer1 = buffer[count := currVertex];
                 count1 = count + 1;
                 q1 = Queue_dequeue q
             in if \<not> in_range currVertex (length (array g)) then Inl OutOfBounds
                else case BFS_adj_loop (getHead (array g ! nat currVertex)) visited q1 of
                       Inl e \<Rightarrow> Inl e
                     | Inr (visited1, q2) \<Rightarrow> BFS_loop g visited1 q2 buffer1 count1)"
  by pat_completeness auto
termination
proof (relation "measure (\<lambda>(g, visited, q, buffer, count). 2 * length (filter Not visited) + length q)",
    goal_cases)
  case 1
  show ?case by simp
next
  case (2 g visited q buffer count currVertex buffer1 count1 q1 x visited1 q2)
  from 2(8, 9) have "BFS_adj_loop (getHead (array g ! nat currVertex)) visited q1 = Inr (visited1, q2)"
    by simp
  from BFS_adj_loop_measure [OF this] 2(1, 6) show ?case
    by (cases q) (simp_all add: Queue_isEmpty_def Queue_dequeue_def)
qed

declare BFS_loop.simps [simp del]

definition BFS :: "Graph \<Rightarrow> int \<Rightarrow> int list \<Rightarrow> error + (int list \<times> nat)" where
  "BFS g startIndex buffer =
     (let visited = replicate (nat (vertices g)) False
      in if \<not> in_range startIndex (length visited) then Inl OutOfBounds
         else let visited = visited[nat startIndex := True];
                  q = Queue_enqueue startIndex [];
                  count = 0
              in BFS_loop g visited q buffer count)"

text \<open>The inner \<open>while (temp)\<close> of \<open>DFS\<close>: every unvisited neighbour is pushed.\<close>

fun DFS_adj_loop :: "Node list \<Rightarrow> bool list \<Rightarrow> Stack \<Rightarrow> error + Stack" where
  "DFS_adj_loop [] visited s = Inr s"
| "DFS_adj_loop (temp # rest) visited s =
     (let AdjVertex = destination temp
      in if \<not> in_range AdjVertex (length visited) then Inl OutOfBounds
         else if \<not> visited ! nat AdjVertex
              then DFS_adj_loop rest visited (Stack_push AdjVertex s)
              else DFS_adj_loop rest visited s)"

text \<open>A stack entry that the next pop will not write: out of range or already visited.\<close>

definition stale :: "bool list \<Rightarrow> int \<Rightarrow> bool" where
  "stale visited v \<longleftrightarrow> \<not> in_range v (length visited) \<or> visited ! nat v"

lemma DFS_adj_loop_pushes:
  "DFS_adj_loop l visited s = Inr s' \<Longrightarrow>
   \<exists>new. s' = new @ s \<and> (\<forall>v \<in> set new. \<not> stale visited v)"
proof (induction l arbitrary: s)
  case Nil
  then show ?case by simp
next
  case (Cons temp rest)
  show ?case
  proof (cases "visited ! nat (destination temp)")
    case True
    then show ?thesis
      using Cons by (simp add: Let_def split: if_splits)
  next
    case False
    then have r: "in_range (destination temp) (length visited)"
      and c: "DFS_adj_loop rest visited (Stack_push (destination temp) s) = Inr s'"
      using Cons.prems by (simp_all add: Let_def split: if_splits)
    from Cons.IH [OF c] obtain new where
      "s' = new @ Stack_push (destination temp) s" "\<forall>v \<in> set new. \<not> stale visited v"
      by blast
    then have "s' = (new @ [destination temp]) @ s \<and>
        (\<forall>v \<in> set (new @ [destination temp]). \<not> stale visited v)"
      using r False by (simp add: Stack_push_def stale_def)
    then show ?thesis by blast
  qed
qed

text \<open>
  The outer \<open>while (!s.isEmpty())\<close>. \<open>visited[currVertex]\<close> is read at every pop; the
  buffer is written only when the popped vertex is unvisited.
\<close>

function DFS_loop :: "Graph \<Rightarrow> bool list \<Rightarrow> Stack \<Rightarrow> int list \<Rightarrow> nat \<Rightarrow> error + (int list \<times> nat)" where
  "DFS_loop g visited s buffer count =
     (if Stack_isEmpty s then Inr (buffer, count)
      else
        let currVertex = Stack_top s;
            s1 = Stack_pop s
        in if \<not> in_range currVertex (length visited) then Inl OutOfBounds
           else if \<not> visited ! nat currVertex \<and> \<not> count < length buffer then Inl OutOfBounds
           else
             let buffer1 = (if \<not> visited ! nat currVertex then buffer[count := currVertex] else buffer);
                 count1 = (if \<not> visited ! nat currVertex then count + 1 else count);
                 visited1 = (if \<not> visited ! nat currVertex then visited[nat currVertex := True] else visited)
             in if \<not> in_range currVertex (length (array g)) then Inl OutOfBounds
                else case DFS_adj_loop (getHead (array g ! nat currVertex)) visited1 s1 of
                       Inl e \<Rightarrow> Inl e
                     | Inr s2 \<Rightarrow> DFS_loop g visited1 s2 buffer1 count1)"
  by pat_completeness auto
termination
proof (relation "measures [\<lambda>(g, visited, s, buffer, count). length (filter Not visited),
                           \<lambda>(g, visited, s, buffer, count). length (filter (stale visited) s)]",
    goal_cases)
  case 1
  show ?case by simp
next
  case (2 g visited s buffer count currVertex s1 buffer1 count1 visited1 s2)
  obtain rest where s: "s = currVertex # rest" "s1 = rest"
    using 2(1,2,3) by (cases s) (simp_all add: Stack_isEmpty_def Stack_top_def Stack_pop_def)
  have r: "nat currVertex < length visited" using 2(4) by (auto simp: in_range_def)
  from DFS_adj_loop_pushes [OF 2(10)] obtain new where
    new: "s2 = new @ rest" "\<forall>v \<in> set new. \<not> stale visited1 v"
    using s by blast
  show ?case
  proof (cases "visited ! nat currVertex")
    case True
    then have "visited1 = visited" using 2(8) by simp
    moreover have "stale visited currVertex" using True by (simp add: stale_def)
    moreover have "filter (stale visited1) new = []" using new(2) by (simp add: filter_empty_conv)
    ultimately show ?thesis using s new(1) by simp
  next
    case False
    then have "visited1 = visited[nat currVertex := True]" using 2(8) by simp
    then show ?thesis using filter_Not_update [OF r False] by simp
  qed
qed

declare DFS_loop.simps [simp del]

definition DFS :: "Graph \<Rightarrow> int \<Rightarrow> int list \<Rightarrow> error + (int list \<times> nat)" where
  "DFS g startIndex buffer =
     (let visited = replicate (nat (vertices g)) False;
          s = Stack_push startIndex [];
          count = 0
      in DFS_loop g visited s buffer count)"

subsection \<open>PrimsAlgorithm\<close>

text \<open>
  The inner \<open>while (temp)\<close>: \<open>visited[v]\<close> is read for every node, \<open>key[v]\<close> only when
  \<open>visited[v]\<close> is false (the \<open>&&\<close> short-circuits). The local array \<open>key\<close> is \<open>keys\<close> here.
\<close>

fun Prims_adj_loop ::
  "Node list \<Rightarrow> int \<Rightarrow> bool list \<Rightarrow> int list \<Rightarrow> int list \<Rightarrow> Heap
     \<Rightarrow> error + (int list \<times> int list \<times> Heap)" where
  "Prims_adj_loop [] u visited keys parentBuffer h = Inr (keys, parentBuffer, h)"
| "Prims_adj_loop (temp # rest) u visited keys parentBuffer h =
     (let v = destination temp;
          weight = weight temp
      in if \<not> in_range v (length visited) then Inl OutOfBounds
         else if \<not> visited ! nat v \<and> \<not> in_range v (length keys) then Inl OutOfBounds
         else if \<not> visited ! nat v \<and> weight < keys ! nat v
              then if \<not> in_range v (length parentBuffer) then Inl OutOfBounds
                   else let keys1 = keys[nat v := weight];
                            parentBuffer1 = parentBuffer[nat v := u];
                            h1 = InsertKey h v (keys1 ! nat v)
                        in Prims_adj_loop rest u visited keys1 parentBuffer1 h1
              else Prims_adj_loop rest u visited keys parentBuffer h)"

lemma percolateDown_hsize: "hsize (percolateDown h i) = hsize h"
proof (induction h i rule: percolateDown.induct)
  case (1 h i)
  show ?case
    by (subst percolateDown.simps) (simp add: Let_def 1 del: percolateDown.simps)
qed

lemma ExtractMin_hsize: "hsize h \<noteq> 0 \<Longrightarrow> hsize (snd (ExtractMin h)) < hsize h"
  by (simp add: ExtractMin_def Let_def percolateDown_hsize)

text \<open>The outer \<open>while (!h.isEmpty())\<close>; \<open>continue\<close> is the recursive call on the same arrays.\<close>

function Prims_loop :: "Graph \<Rightarrow> Heap \<Rightarrow> int list \<Rightarrow> bool list \<Rightarrow> int list \<Rightarrow> error + int list" where
  "Prims_loop g h keys visited parentBuffer =
     (if Heap_isEmpty h then Inr parentBuffer
      else
        let minNode = fst (ExtractMin h);
            h1 = snd (ExtractMin h);
            u = vertex minNode
        in if \<not> in_range u (length visited) then Inl OutOfBounds
           else if visited ! nat u then Prims_loop g h1 keys visited parentBuffer
           else
             let visited1 = visited[nat u := True]
             in if \<not> in_range u (length (array g)) then Inl OutOfBounds
                else case Prims_adj_loop (getHead (array g ! nat u)) u visited1 keys parentBuffer h1 of
                       Inl e \<Rightarrow> Inl e
                     | Inr (keys1, parentBuffer1, h2) \<Rightarrow> Prims_loop g h2 keys1 visited1 parentBuffer1)"
  by pat_completeness auto
termination
proof (relation "measures [\<lambda>(g, h, keys, visited, parentBuffer). length (filter Not visited),
                           \<lambda>(g, h, keys, visited, parentBuffer). hsize h]",
    goal_cases)
  case 1
  show ?case by simp
next
  case (2 g h keys visited parentBuffer minNode h1 u)
  then show ?case using ExtractMin_hsize [of h] by (simp add: Heap_isEmpty_def)
next
  case (3 g h keys visited parentBuffer minNode h1 u visited1)
  have "nat u < length visited" using 3(5) by (auto simp: in_range_def)
  from filter_Not_update [OF this 3(6)] 3(7) show ?case by simp
qed

declare Prims_loop.simps [simp del]

text \<open>
  The heap is constructed first, with \<open>vertices * vertices\<close> computed in \<open>int\<close>. The
  first loop writes \<open>parentBuffer[i] = -1\<close> for every \<open>i < vertices\<close>; \<open>key\<close> and
  \<open>visited\<close> are fresh arrays of \<open>vertices\<close> cells.
\<close>

definition PrimsAlgorithm :: "Graph \<Rightarrow> int \<Rightarrow> int list \<Rightarrow> error + int list" where
  "PrimsAlgorithm g startIndex parentBuffer =
     (if \<not> fits_int (vertices g * vertices g) then Inl SignedOverflow
      else
        let h = Heap_new (nat (vertices g * vertices g));
            n = nat (vertices g)
        in if length parentBuffer < n then Inl OutOfBounds
           else
             let keys = replicate n INT_MAX;
                 visited = replicate n False;
                 parentBuffer = replicate n (- 1) @ drop n parentBuffer
             in if \<not> in_range startIndex (length keys) then Inl OutOfBounds
                else let keys = keys[nat startIndex := 0];
                         h = InsertKey h startIndex 0
                     in Prims_loop g h keys visited parentBuffer)"

subsection \<open>DijkstraAlgorithm\<close>

text \<open>
  The inner \<open>while (temp)\<close>: \<open>distBuffer[u] + weight\<close> is computed, and \<open>distBuffer[v]\<close>
  read, only when \<open>distBuffer[u] != INT_MAX\<close> (the \<open>&&\<close> short-circuits).
\<close>

fun Dijkstra_adj_loop ::
  "Node list \<Rightarrow> int \<Rightarrow> int list \<Rightarrow> Heap \<Rightarrow> error + (int list \<times> Heap)" where
  "Dijkstra_adj_loop [] u distBuffer h = Inr (distBuffer, h)"
| "Dijkstra_adj_loop (temp # rest) u distBuffer h =
     (let v = destination temp;
          weight = weight temp
      in if \<not> in_range u (length distBuffer) then Inl OutOfBounds
         else if distBuffer ! nat u \<noteq> INT_MAX \<and> \<not> in_range v (length distBuffer) then Inl OutOfBounds
         else if distBuffer ! nat u \<noteq> INT_MAX \<and> \<not> fits_int (distBuffer ! nat u + weight)
              then Inl SignedOverflow
         else if distBuffer ! nat u \<noteq> INT_MAX \<and> distBuffer ! nat u + weight < distBuffer ! nat v
              then let distBuffer1 = distBuffer[nat v := distBuffer ! nat u + weight];
                       h1 = InsertKey h v (distBuffer1 ! nat v)
                   in Dijkstra_adj_loop rest u distBuffer1 h1
              else Dijkstra_adj_loop rest u distBuffer h)"

text \<open>
  The outer loop has no visited array: with a negative weight it can go on for ever, so
  it is a partial function, \<open>None\<close> when the loop does not end.
\<close>

partial_function (option) Dijkstra_loop :: "Graph \<Rightarrow> Heap \<Rightarrow> int list \<Rightarrow> (error + int list) option" where
  "Dijkstra_loop g h distBuffer =
     (if Heap_isEmpty h then Some (Inr distBuffer)
      else
        let minNode = fst (ExtractMin h);
            h1 = snd (ExtractMin h);
            u = vertex minNode;
            d = key minNode
        in if \<not> in_range u (length distBuffer) then Some (Inl OutOfBounds)
           else if d > distBuffer ! nat u then Dijkstra_loop g h1 distBuffer
           else if \<not> in_range u (length (array g)) then Some (Inl OutOfBounds)
           else case Dijkstra_adj_loop (getHead (array g ! nat u)) u distBuffer h1 of
                  Inl e \<Rightarrow> Some (Inl e)
                | Inr (distBuffer1, h2) \<Rightarrow> Dijkstra_loop g h2 distBuffer1)"

declare Dijkstra_loop.simps [code]

text \<open>
  The heap is constructed first, with \<open>vertices * vertices\<close> computed in \<open>int\<close>, before
  any cell of \<open>distBuffer\<close> is written.
\<close>

definition DijkstraAlgorithm :: "Graph \<Rightarrow> int \<Rightarrow> int list \<Rightarrow> (error + int list) option" where
  "DijkstraAlgorithm g startIndex distBuffer =
     (if \<not> fits_int (vertices g * vertices g) then Some (Inl SignedOverflow)
      else
        let h = Heap_new (nat (vertices g * vertices g));
            n = nat (vertices g)
        in if length distBuffer < n then Some (Inl OutOfBounds)
           else
             let distBuffer = replicate n INT_MAX @ drop n distBuffer
             in if \<not> in_range startIndex (length distBuffer) then Some (Inl OutOfBounds)
                else let distBuffer = distBuffer[nat startIndex := 0];
                         h = InsertKey h startIndex 0
                     in Dijkstra_loop g h distBuffer)"

subsection \<open>Reachability and the breadth-first order of the specification\<close>

text \<open>
  The neighbours of a vertex in adjacency-list order: the destinations along its chain,
  the most recently inserted edge first (\<open>AddEdge\<close> prepends).
\<close>

definition neighbours :: "Graph \<Rightarrow> int \<Rightarrow> int list" where
  "neighbours g u =
     (if in_range u (length (array g)) then map destination (array g ! nat u) else [])"

definition edges :: "Graph \<Rightarrow> (int \<times> int) set" where
  "edges g = {(u, v). v \<in> set (neighbours g u)}"

definition reachable :: "Graph \<Rightarrow> int \<Rightarrow> int set" where
  "reachable g s = rtrancl (edges g) `` {s}"

text \<open>
  Exploring a list of neighbours in order: each one that is not yet marked is marked and
  kept, so a neighbour that occurs twice is kept once.
\<close>

fun discover :: "int set \<Rightarrow> int list \<Rightarrow> int list" where
  "discover seen [] = []"
| "discover seen (v # vs) =
     (if v \<in> seen then discover seen vs else v # discover (insert v seen) vs)"

text \<open>
  The specification's traversal, on sets and lists only. \<open>bfs_order g seen q out\<close>: from
  the marked set \<open>seen\<close> and the queue \<open>q\<close>, the vertices leave the queue in the order
  \<open>out\<close>. The front vertex is dequeued and appended to the output; its neighbours are
  explored in adjacency-list order, and each unmarked one is marked and enqueued.
\<close>

inductive bfs_order :: "Graph \<Rightarrow> int set \<Rightarrow> int list \<Rightarrow> int list \<Rightarrow> bool" where
  bfs_done: "bfs_order g seen [] []"
| bfs_step: "bfs_order g (seen \<union> set (discover seen (neighbours g u)))
                (q @ discover seen (neighbours g u)) out
             \<Longrightarrow> bfs_order g seen (u # q) (u # out)"

text \<open>The set a \<open>visited\<close> array stands for.\<close>

definition marked :: "bool list \<Rightarrow> int set" where
  "marked visited = {v. in_range v (length visited) \<and> visited ! nat v}"

text \<open>
  The distance of \<open>v\<close> from \<open>s\<close>: the number of edges of a shortest path (meaningful for
  the vertices reachable from \<open>s\<close>). A breadth-first order never lists a vertex before
  one that is nearer to the start.
\<close>

definition dist :: "Graph \<Rightarrow> int \<Rightarrow> int \<Rightarrow> nat" where
  "dist g s v = (LEAST n. (s, v) \<in> edges g ^^ n)"

text \<open>The state of the traversal against the distances from the start vertex.\<close>

definition level_inv :: "Graph \<Rightarrow> int \<Rightarrow> int set \<Rightarrow> int list \<Rightarrow> bool" where
  "level_inv g s seen q \<longleftrightarrow>
     seen \<subseteq> reachable g s \<and>
     sorted (map (dist g s) q) \<and>
     (q \<noteq> [] \<longrightarrow> dist g s (last q) \<le> dist g s (hd q) + 1) \<and>
     (q \<noteq> [] \<longrightarrow> (\<forall>p \<in> reachable g s. dist g s p \<le> dist g s (hd q) \<longrightarrow> p \<in> seen))"

subsection \<open>The tree a parent array stands for\<close>

text \<open>
  The edges \<open>(parentBuffer[v], v)\<close> for every vertex \<open>v\<close> other than the start whose entry
  is not the sentinel \<open>-1\<close>, in the order of \<open>v\<close>, and their total weight read off the
  adjacency matrix.
\<close>

definition tree_edges :: "int list \<Rightarrow> int \<Rightarrow> (int \<times> int) list" where
  "tree_edges parentBuffer start =
     map (\<lambda>v. (parentBuffer ! nat v, v))
       (filter (\<lambda>v. v \<noteq> start \<and> parentBuffer ! nat v \<noteq> - 1)
          (map int [0..<length parentBuffer]))"

definition tree_weight :: "Graph \<Rightarrow> (int \<times> int) list \<Rightarrow> int" where
  "tree_weight g es = sum_list (map (\<lambda>(p, v). AdjMat g ! nat p ! nat v) es)"

subsection \<open>The heap order with one index exempted\<close>




section \<open>Graph construction\<close>

subsection \<open>The class invariant holds in every state the interface can build\<close>

lemma graph_inv_new: "Graph_new v = Inr g \<Longrightarrow> graph_inv g"
  by (auto simp: Graph_new_def graph_inv_def list_all_iff split: if_splits)

lemma vertices_addEdge [simp]: "vertices (addEdge g u v w) = vertices g"
  by (simp add: addEdge_def Let_def)

lemma list_all_update: "list_all P xs \<Longrightarrow> P x \<Longrightarrow> list_all P (xs[i := x])"
  by (auto simp: list_all_iff dest!: set_update_subset_insert [THEN subsetD])

lemma list_all_nth: "list_all P xs \<Longrightarrow> i < length xs \<Longrightarrow> P (xs ! i)"
  by (simp add: list_all_length)

lemma graph_inv_addEdge: "graph_inv g \<Longrightarrow> graph_inv (addEdge g u v w)"
proof -
  assume inv: "graph_inv g"
  show ?thesis
  proof (cases "u \<ge> 0 \<and> u < vertices g \<and> v \<ge> 0 \<and> v < vertices g")
    case False
    then show ?thesis using inv by (auto simp: addEdge_def)
  next
    case True
    let ?R = "\<lambda>row :: int list. length row = nat (vertices g)"
    let ?D = "list_all (\<lambda>e. 0 \<le> destination e \<and> destination e < vertices g)"
    have rows: "list_all ?R (AdjMat g)" and dests: "list_all ?D (array g)"
      using inv by (simp_all add: graph_inv_def)
    have lens: "length (array g) = nat (vertices g)" "length (AdjMat g) = nat (vertices g)"
      using inv by (simp_all add: graph_inv_def)
    have nu: "nat u < nat (vertices g)" and nv: "nat v < nat (vertices g)"
      using True by simp_all
    let ?m1 = "(AdjMat g)[nat u := (AdjMat g ! nat u)[nat v := w]]"
    have ru: "?R ((AdjMat g ! nat u)[nat v := w])"
      using list_all_nth [OF rows, of "nat u"] lens nu by simp
    have m1: "list_all ?R ?m1"
      by (rule list_all_update [OF rows ru])
    have rv: "?R ((?m1 ! nat v)[nat u := w])"
      using list_all_nth [OF m1, of "nat v"] lens nv by simp
    have m2: "list_all ?R (?m1[nat v := (?m1 ! nat v)[nat u := w]])"
      by (rule list_all_update [OF m1 rv])
    let ?a1 = "(array g)[nat u := AdjList_AddEdge v w (array g ! nat u)]"
    have du: "?D (AdjList_AddEdge v w (array g ! nat u))"
      using list_all_nth [OF dests, of "nat u"] lens nu True by (simp add: AdjList_AddEdge_def)
    have a1: "list_all ?D ?a1"
      by (rule list_all_update [OF dests du])
    have dv: "?D (AdjList_AddEdge u w (?a1 ! nat v))"
      using list_all_nth [OF a1, of "nat v"] lens nv True by (simp add: AdjList_AddEdge_def)
    have a2: "list_all ?D (?a1[nat v := AdjList_AddEdge u w (?a1 ! nat v)])"
      by (rule list_all_update [OF a1 dv])
    show ?thesis
      using inv m2 a2 True by (simp add: graph_inv_def addEdge_def Let_def)
  qed
qed

lemma graph_inv_addEdges: "graph_inv g \<Longrightarrow> graph_inv (addEdges g es)"
  by (induction g es rule: addEdges.induct) (simp_all add: graph_inv_addEdge)

lemma graph_inv_built: "Graph_new n = Inr g \<Longrightarrow> graph_inv (addEdges g es)"
  by (rule graph_inv_addEdges [OF graph_inv_new])

subsection \<open>addEdge\<close>

text \<open>
  C5. After \<open>addEdge(u, v, w)\<close> with both ids in range, the adjacency list of \<open>u\<close> holds
  a record \<open>(v, w)\<close>, the adjacency list of \<open>v\<close> holds a record \<open>(u, w)\<close>, and both
  matrix cells \<open>[u][v]\<close> and \<open>[v][u]\<close> are \<open>w\<close>.
\<close>

theorem addEdge_symmetric:
  assumes "graph_inv g" and "0 \<le> u" and "u < vertices g" and "0 \<le> v" and "v < vertices g"
  shows "\<lparr>destination = v, weight = w\<rparr> \<in> set (array (addEdge g u v w) ! nat u) \<and>
         \<lparr>destination = u, weight = w\<rparr> \<in> set (array (addEdge g u v w) ! nat v) \<and>
         AdjMat (addEdge g u v w) ! nat u ! nat v = w \<and>
         AdjMat (addEdge g u v w) ! nat v ! nat u = w"
proof -
  have lens: "length (array g) = nat (vertices g)" "length (AdjMat g) = nat (vertices g)"
    using assms(1) by (simp_all add: graph_inv_def)
  have rows: "\<And>i. i < nat (vertices g) \<Longrightarrow> length (AdjMat g ! i) = nat (vertices g)"
    using assms(1) by (simp add: graph_inv_def list_all_length)
  have nu: "nat u < nat (vertices g)" and nv: "nat v < nat (vertices g)"
    using assms by simp_all
  show ?thesis
    using assms(2-5) lens nu nv rows [OF nu] rows [OF nv]
    by (simp add: addEdge_def Let_def nth_list_update AdjList_AddEdge_def)
qed

theorem addEdge_symmetric_witness:
  "\<lparr>destination = 2, weight = 7\<rparr> \<in> set (array (addEdge (addEdges
       \<lparr>vertices = 3, array = [[], [], []], AdjMat = [[0, 0, 0], [0, 0, 0], [0, 0, 0]]\<rparr>
       [(0, 1, 5)]) 1 2 7) ! nat 1) \<and>
   AdjMat (addEdge (addEdges
       \<lparr>vertices = 3, array = [[], [], []], AdjMat = [[0, 0, 0], [0, 0, 0], [0, 0, 0]]\<rparr>
       [(0, 1, 5)]) 1 2 7) ! nat 2 ! nat 1 = 7"
  using addEdge_symmetric [of "addEdges
       \<lparr>vertices = 3, array = [[], [], []], AdjMat = [[0, 0, 0], [0, 0, 0], [0, 0, 0]]\<rparr>
       [(0, 1, 5)]" 1 2 7]
  by (simp add: graph_inv_def addEdge_def AdjList_AddEdge_def)

text \<open>
  C6. \<open>addEdge\<close> with \<open>u\<close> or \<open>v\<close> outside \<open>[0, n)\<close> returns normally (the model has no
  error result for it) and the graph after the call is the graph before it: every
  adjacency list and every matrix cell.
\<close>

theorem addEdge_out_of_range_noop:
  assumes "u < 0 \<or> vertices g \<le> u \<or> v < 0 \<or> vertices g \<le> v"
  shows "addEdge g u v w = g"
  using assms by (auto simp: addEdge_def)

theorem addEdge_out_of_range_noop_witness:
  "addEdge \<lparr>vertices = 2, array = [[], []], AdjMat = [[0, 0], [0, 0]]\<rparr> 0 2 9
     = \<lparr>vertices = 2, array = [[], []], AdjMat = [[0, 0], [0, 0]]\<rparr> \<and>
   addEdge \<lparr>vertices = 2, array = [[], []], AdjMat = [[0, 0], [0, 0]]\<rparr> (- 1) 1 9
     = \<lparr>vertices = 2, array = [[], []], AdjMat = [[0, 0], [0, 0]]\<rparr>"
  using addEdge_out_of_range_noop [of 0 "\<lparr>vertices = 2, array = [[], []], AdjMat = [[0, 0], [0, 0]]\<rparr>" 2 9]
    addEdge_out_of_range_noop [of "- 1" "\<lparr>vertices = 2, array = [[], []], AdjMat = [[0, 0], [0, 0]]\<rparr>" 1 9]
  by simp

text \<open>
  The adjacency-list order is most recently inserted first: \<open>addEdge(u, v, w)\<close> puts
  \<open>v\<close> in front of the neighbours of \<open>u\<close> and \<open>u\<close> in front of the neighbours of \<open>v\<close>.
\<close>

lemma neighbours_addEdge:
  assumes "graph_inv g" and "0 \<le> u" and "u < vertices g" and "0 \<le> v" and "v < vertices g"
  shows "neighbours (addEdge g u v w) x =
           (if x = v then [u] else []) @ (if x = u then [v] else []) @ neighbours g x"
proof -
  have len: "length (array g) = nat (vertices g)"
    using assms(1) by (simp add: graph_inv_def)
  have nu: "nat u < nat (vertices g)" and nv: "nat v < nat (vertices g)"
    using assms by simp_all
  have eq: "nat x = nat u \<longleftrightarrow> x = u" "nat x = nat v \<longleftrightarrow> x = v" if "0 \<le> x"
    using that assms(2,4) by auto
  show ?thesis
  proof (cases "in_range x (length (array g))")
    case True
    then have "0 \<le> x" by (simp add: in_range_def)
    from eq [OF this] True show ?thesis
      using assms(2-5) len nu nv
      by (auto simp: neighbours_def addEdge_def Let_def nth_list_update AdjList_AddEdge_def)
  next
    case False
    then have "x \<noteq> u" "x \<noteq> v" using assms(2-5) len by (auto simp: in_range_def)
    then show ?thesis
      using False assms(2-5) by (simp add: neighbours_def addEdge_def Let_def)
  qed
qed

section \<open>The heap keeps its order\<close>

























section \<open>The traversals\<close>

subsection \<open>BFS refines the breadth-first order of the specification\<close>

lemma marked_update:
  "in_range v (length visited) \<Longrightarrow> marked (visited[nat v := True]) = insert v (marked visited)"
  by (auto simp: marked_def in_range_def nth_list_update)

lemma set_discover: "set (discover seen vs) = set vs - seen"
  by (induction seen vs rule: discover.induct) auto

lemma distinct_discover: "distinct (discover seen vs)"
  by (induction seen vs rule: discover.induct) (auto simp: set_discover)

lemma BFS_adj_loop_discover:
  assumes "list_all (\<lambda>e. in_range (destination e) (length visited)) l"
  shows "\<exists>visited'. BFS_adj_loop l visited q =
            Inr (visited', q @ discover (marked visited) (map destination l)) \<and>
          length visited' = length visited \<and>
          marked visited' = marked visited \<union> set (discover (marked visited) (map destination l))"
  using assms
proof (induction l arbitrary: visited q)
  case Nil
  then show ?case by simp
next
  case (Cons temp rest)
  let ?v = "destination temp"
  have r: "in_range ?v (length visited)" using Cons.prems by simp
  show ?case
  proof (cases "visited ! nat ?v")
    case True
    then have m: "?v \<in> marked visited" using r by (simp add: marked_def)
    from Cons.IH [of visited q] Cons.prems True r m show ?thesis by (simp add: Let_def)
  next
    case False
    then have m: "?v \<notin> marked visited" by (simp add: marked_def)
    have "list_all (\<lambda>e. in_range (destination e) (length (visited[nat ?v := True]))) rest"
      using Cons.prems by simp
    from Cons.IH [OF this, of "Queue_enqueue ?v q"] False r m show ?thesis
      by (auto simp: Let_def marked_update Queue_enqueue_def)
  qed
qed

lemma BFS_loop_unfold_Nil: "BFS_loop g visited [] buffer count = Inr (buffer, count)"
  by (subst BFS_loop.simps) (simp add: Queue_isEmpty_def)

lemma BFS_loop_unfold_Cons:
  "BFS_loop g visited (u # rest) buffer count =
     (if \<not> count < length buffer then Inl OutOfBounds
      else if \<not> in_range u (length (array g)) then Inl OutOfBounds
      else case BFS_adj_loop (array g ! nat u) visited rest of
             Inl e \<Rightarrow> Inl e
           | Inr (visited1, q2) \<Rightarrow> BFS_loop g visited1 q2 (buffer[count := u]) (Suc count))"
  by (subst BFS_loop.simps)
    (simp add: Queue_isEmpty_def Queue_getFront_def Queue_dequeue_def getHead_def Let_def)

lemma take_Suc_update: "c < length b \<Longrightarrow> take (Suc c) (b[c := u]) = take c b @ [u]"
  by (simp add: take_Suc_conv_app_nth)

lemma BFS_loop_refines:
  "length visited = n \<Longrightarrow> list_all (\<lambda>v. in_range v n) q \<Longrightarrow>
     count + length q + length (filter Not visited) \<le> length buffer \<Longrightarrow>
     length (array g) = n \<Longrightarrow>
     list_all (list_all (\<lambda>e. in_range (destination e) n)) (array g) \<Longrightarrow>
     \<exists>out. BFS_loop g visited q buffer count =
              Inr (take count buffer @ out @ drop (count + length out) buffer, count + length out) \<and>
            bfs_order g (marked visited) q out \<and> count + length out \<le> length buffer"
proof (induction g visited q buffer count rule: BFS_loop.induct)
  case (1 g visited q buffer count)
  note len = "1.prems"(4)
  show ?case
  proof (cases q)
    case Nil
    then show ?thesis using "1.prems"(3) by (auto simp: BFS_loop_unfold_Nil intro: bfs_done)
  next
    case (Cons u rest)
    have cb: "count < length buffer" using "1.prems"(3) Cons by simp
    have ur: "in_range u n" using "1.prems"(2) Cons by simp
    then have un: "nat u < length (array g)" using len by (auto simp: in_range_def)
    have "list_all (\<lambda>e. in_range (destination e) (length visited)) (array g ! nat u)"
      using list_all_nth [OF "1.prems"(5) un] "1.prems"(1) by simp
    from BFS_adj_loop_discover [OF this, of rest] obtain visited1 where
      adj: "BFS_adj_loop (array g ! nat u) visited rest =
              Inr (visited1, rest @ discover (marked visited) (neighbours g u))"
      and l1: "length visited1 = n"
      and m1: "marked visited1 = marked visited \<union> set (discover (marked visited) (neighbours g u))"
      using ur len "1.prems"(1) by (auto simp: neighbours_def)
    let ?new = "discover (marked visited) (neighbours g u)"
    have "set ?new \<subseteq> set (map destination (array g ! nat u))"
      using ur len by (auto simp: set_discover neighbours_def)
    moreover have "\<forall>e \<in> set (array g ! nat u). in_range (destination e) n"
      using list_all_nth [OF "1.prems"(5) un] by (simp add: list_all_iff)
    ultimately have q2: "list_all (\<lambda>v. in_range v n) (rest @ ?new)"
      using "1.prems"(2) Cons by (auto simp: list_all_iff)
    have meas: "Suc count + length (rest @ ?new) + length (filter Not visited1) \<le> length buffer"
      using BFS_adj_loop_measure [OF adj] "1.prems"(3) Cons by simp
    have "\<exists>out. BFS_loop g visited1 (rest @ ?new) (buffer[count := u]) (count + 1) =
              Inr (take (count + 1) (buffer[count := u]) @ out @
                     drop (count + 1 + length out) (buffer[count := u]), count + 1 + length out) \<and>
            bfs_order g (marked visited1) (rest @ ?new) out \<and>
            count + 1 + length out \<le> length (buffer[count := u])"
    proof -
      have A: "\<not> Queue_isEmpty q" using Cons by (simp add: Queue_isEmpty_def)
      have B: "\<not> \<not> count < length buffer" using cb by simp
      have C: "\<not> \<not> in_range (Queue_getFront q) (length (array g))"
        using ur len Cons by (simp add: Queue_getFront_def)
      have D: "BFS_adj_loop (getHead (array g ! nat (Queue_getFront q))) visited (Queue_dequeue q) =
          Inr (visited1, rest @ ?new)"
        using adj Cons by (simp add: Queue_getFront_def Queue_dequeue_def getHead_def)
      have E: "count + 1 + length (rest @ ?new) + length (filter Not visited1)
          \<le> length (buffer[count := Queue_getFront q])"
        using meas by simp
      have F: "Queue_getFront q = u" using Cons by (simp add: Queue_getFront_def)
      show ?thesis
        using "1.IH" [OF A refl B refl refl refl C D refl l1 q2 E len "1.prems"(5)]
        unfolding F .
    qed
    then obtain out where
      run: "BFS_loop g visited1 (rest @ ?new) (buffer[count := u]) (count + 1) =
              Inr (take (count + 1) (buffer[count := u]) @ out @
                     drop (count + 1 + length out) (buffer[count := u]), count + 1 + length out)"
      and ord: "bfs_order g (marked visited1) (rest @ ?new) out"
      and bound: "count + 1 + length out \<le> length (buffer[count := u])"
      by blast
    have "BFS_loop g visited q buffer count =
        Inr (take count buffer @ (u # out) @ drop (count + length (u # out)) buffer,
             count + length (u # out))"
      using cb ur len adj run Cons
      by (simp add: BFS_loop_unfold_Cons take_Suc_update)
    moreover have "bfs_order g (marked visited) q (u # out)"
      using ord m1 Cons by (auto intro: bfs_step)
    moreover have "count + length (u # out) \<le> length buffer" using bound by simp
    ultimately show ?thesis by blast
  qed
qed

subsection \<open>What the breadth-first order visits\<close>

lemma edges_Image_single: "edges g `` {u} = set (neighbours g u)"
  by (auto simp: edges_def)

lemma bfs_order_props:
  "bfs_order g seen q out \<Longrightarrow> distinct q \<Longrightarrow> set q \<subseteq> seen \<Longrightarrow>
   edges g `` (seen - set q) \<subseteq> seen \<Longrightarrow>
   distinct out \<and> set out \<inter> (seen - set q) = {} \<and> set q \<subseteq> set out \<and>
   set out \<subseteq> rtrancl (edges g) `` set q \<and>
   edges g `` (set out \<union> (seen - set q)) \<subseteq> set out \<union> (seen - set q)"
proof (induction rule: bfs_order.induct)
  case (bfs_done g seen)
  then show ?case by simp
next
  case (bfs_step g seen u q out)
  let ?new = "discover seen (neighbours g u)"
  let ?seen' = "seen \<union> set ?new"
  let ?E = "edges g"
  have new: "set ?new = set (neighbours g u) - seen" by (rule set_discover)
  have u: "u \<in> seen" "u \<notin> set q" "distinct q" "set q \<subseteq> seen"
    using bfs_step.prems by auto
  have d: "distinct (q @ ?new)"
    using u new by (auto simp: distinct_discover)
  have s: "set (q @ ?new) \<subseteq> ?seen'" using u by auto
  have P: "?seen' - set (q @ ?new) = seen - set q" using new by auto
  have P': "seen - set q = insert u (seen - set (u # q))" using u by auto
  have "?E `` (seen - set q) \<subseteq> ?E `` {u} \<union> ?E `` (seen - set (u # q))"
    unfolding P' by blast
  also have "\<dots> \<subseteq> ?seen'"
    using bfs_step.prems(3) new by (auto simp: edges_Image_single)
  finally have c: "?E `` (?seen' - set (q @ ?new)) \<subseteq> ?seen'" unfolding P .
  from bfs_step.IH [OF d s c] have
    ih: "distinct out" "set out \<inter> (seen - set q) = {}" "set (q @ ?new) \<subseteq> set out"
      "set out \<subseteq> rtrancl ?E `` set (q @ ?new)"
      "?E `` (set out \<union> (seen - set q)) \<subseteq> set out \<union> (seen - set q)"
    unfolding P by auto
  have 1: "distinct (u # out)" using ih(1,2) u by auto
  have 2: "set (u # out) \<inter> (seen - set (u # q)) = {}" using ih(2) by auto
  have 3: "set (u # q) \<subseteq> set (u # out)" using ih(3) by auto
  have "set ?new \<subseteq> ?E `` {u}" using new by (auto simp: edges_Image_single)
  then have "set ?new \<subseteq> rtrancl ?E `` {u}" by auto
  then have "rtrancl ?E `` set (q @ ?new) \<subseteq> rtrancl ?E `` set (u # q)"
    by (auto intro: rtrancl_trans)
  then have 4: "set (u # out) \<subseteq> rtrancl ?E `` set (u # q)" using ih(4) by auto
  have "set (u # out) \<union> (seen - set (u # q)) = set out \<union> (seen - set q)"
    using u by auto
  then have 5: "?E `` (set (u # out) \<union> (seen - set (u # q)))
      \<subseteq> set (u # out) \<union> (seen - set (u # q))"
    using ih(5) by simp
  from 1 2 3 4 5 show ?case by blast
qed

subsection \<open>The breadth-first order is by distance from the start\<close>

lemma reachable_relpow: "v \<in> reachable g s \<longleftrightarrow> (\<exists>n. (s, v) \<in> edges g ^^ n)"
  by (simp add: reachable_def rtrancl_power)

lemma dist_path: "v \<in> reachable g s \<Longrightarrow> (s, v) \<in> edges g ^^ dist g s v"
  unfolding dist_def reachable_relpow by (erule exE) (rule LeastI)

lemma dist_le: "(s, v) \<in> edges g ^^ n \<Longrightarrow> dist g s v \<le> n"
  unfolding dist_def by (rule Least_le)

lemma dist_start: "dist g s s = 0"
  using dist_le [where n = 0 and s = s and v = s and g = g] by simp

lemma reachable_step: "u \<in> reachable g s \<Longrightarrow> (u, w) \<in> edges g \<Longrightarrow> w \<in> reachable g s"
  by (auto simp: reachable_def intro: rtrancl_into_rtrancl)

lemma dist_edge:
  assumes "u \<in> reachable g s" and "(u, w) \<in> edges g"
  shows "dist g s w \<le> dist g s u + 1"
proof -
  have "(s, w) \<in> edges g ^^ Suc (dist g s u)"
    using dist_path [OF assms(1)] assms(2) by auto
  from dist_le [OF this] show ?thesis by simp
qed

lemma dist_pred:
  assumes "w \<in> reachable g s" and "w \<noteq> s"
  shows "\<exists>r. r \<in> reachable g s \<and> (r, w) \<in> edges g \<and> dist g s w = dist g s r + 1"
proof -
  have p: "(s, w) \<in> edges g ^^ dist g s w" by (rule dist_path [OF assms(1)])
  have "dist g s w \<noteq> 0" using p assms(2) by (cases "dist g s w = 0") auto
  then obtain m where m: "dist g s w = Suc m" by (cases "dist g s w") auto
  from p [unfolded m] obtain r where r: "(s, r) \<in> edges g ^^ m" "(r, w) \<in> edges g" by auto
  have rr: "r \<in> reachable g s" using r(1) by (auto simp: reachable_relpow)
  have "dist g s r \<le> m" by (rule dist_le [OF r(1)])
  moreover have "Suc m \<le> dist g s r + 1" using dist_edge [OF rr r(2)] m by simp
  ultimately have "dist g s w = dist g s r + 1" using m by simp
  with rr r(2) show ?thesis by blast
qed

lemma sorted_map_const: "(\<And>x. x \<in> set xs \<Longrightarrow> f x = (c::nat)) \<Longrightarrow> sorted (map f xs)"
  by (induction xs) auto

lemma bfs_order_levels:
  "bfs_order g seen q out \<Longrightarrow> distinct q \<Longrightarrow> set q \<subseteq> seen \<Longrightarrow>
   edges g `` (seen - set q) \<subseteq> seen \<Longrightarrow> level_inv g s seen q \<Longrightarrow>
   sorted (map (dist g s) out) \<and> (\<forall>y \<in> set out. dist g s (hd q) \<le> dist g s y)"
proof (induction rule: bfs_order.induct)
  case (bfs_done g seen)
  then show ?case by simp
next
  case (bfs_step g seen u q out)
  let ?d = "dist g s"
  let ?new = "discover seen (neighbours g u)"
  let ?seen' = "seen \<union> set ?new"
  let ?q' = "q @ ?new"
  let ?E = "edges g"
  note inv = bfs_step.prems(4) [unfolded level_inv_def]
  have new: "set ?new = set (neighbours g u) - seen" by (rule set_discover)
  have u: "u \<in> seen" "u \<notin> set q" "distinct q" "set q \<subseteq> seen"
    using bfs_step.prems by auto
  have ur: "u \<in> reachable g s" using inv u(1) by auto
  have sq: "sorted (map ?d (u # q))" using inv by simp
  have lastq: "q \<noteq> [] \<Longrightarrow> ?d (last q) \<le> ?d u + 1" using inv by simp
  have G: "\<And>p. p \<in> reachable g s \<Longrightarrow> ?d p \<le> ?d u \<Longrightarrow> p \<in> seen" using inv by simp
  have qle: "\<And>y. y \<in> set q \<Longrightarrow> ?d u \<le> ?d y \<and> ?d y \<le> ?d u + 1"
  proof -
    fix y assume y: "y \<in> set q"
    then have "q \<noteq> []" by auto
    have "?d u \<le> ?d y" using sq y by auto
    moreover have "?d y \<le> ?d (last q)"
    proof -
      from y obtain i where i: "i < length q" "q ! i = y" by (auto simp: in_set_conv_nth)
      have "sorted (map ?d q)" using sq by simp
      then have "map ?d q ! i \<le> map ?d q ! (length q - 1)"
        using i(1) by (intro sorted_nth_mono) auto
      then show ?thesis using i \<open>q \<noteq> []\<close> by (simp add: last_conv_nth)
    qed
    ultimately show "?d u \<le> ?d y \<and> ?d y \<le> ?d u + 1" using lastq [OF \<open>q \<noteq> []\<close>] by simp
  qed
  have newd: "\<And>w. w \<in> set ?new \<Longrightarrow> w \<in> reachable g s \<and> ?d w = ?d u + 1"
  proof -
    fix w assume w: "w \<in> set ?new"
    then have e: "(u, w) \<in> ?E" and ns: "w \<notin> seen" using new by (auto simp: edges_def)
    have wr: "w \<in> reachable g s" by (rule reachable_step [OF ur e])
    have "\<not> ?d w \<le> ?d u" using G [OF wr] ns by blast
    then show "w \<in> reachable g s \<and> ?d w = ?d u + 1" using dist_edge [OF ur e] wr by simp
  qed
  have allq: "\<And>y. y \<in> set ?q' \<Longrightarrow> ?d u \<le> ?d y \<and> ?d y \<le> ?d u + 1"
    using qle newd by auto
  have d: "distinct ?q'" using u new by (auto simp: distinct_discover)
  have sub: "set ?q' \<subseteq> ?seen'" using u by auto
  have P: "?seen' - set ?q' = seen - set q" using new by auto
  have P': "seen - set q = insert u (seen - set (u # q))" using u by auto
  have "?E `` (seen - set q) \<subseteq> ?E `` {u} \<union> ?E `` (seen - set (u # q))"
    unfolding P' by blast
  also have "\<dots> \<subseteq> ?seen'"
    using bfs_step.prems(3) new by (auto simp: edges_Image_single)
  finally have c: "?E `` (?seen' - set ?q') \<subseteq> ?seen'" unfolding P .
  have closed: "\<And>r w. r \<in> seen \<Longrightarrow> r \<notin> set q \<Longrightarrow> (r, w) \<in> ?E \<Longrightarrow> w \<in> ?seen'"
    using c unfolding P by blast
  have li: "level_inv g s ?seen' ?q'"
    unfolding level_inv_def
  proof (intro conjI impI ballI)
    show "?seen' \<subseteq> reachable g s" using inv newd by auto
    have "sorted (map ?d ?new)" using newd by (intro sorted_map_const [where c = "?d u + 1"]) simp
    then show "sorted (map ?d ?q')"
      using sq qle newd by (auto simp: sorted_append)
    show "?d (last ?q') \<le> ?d (hd ?q') + 1" if "?q' \<noteq> []"
    proof -
      have "?d (last ?q') \<le> ?d u + 1" "?d u \<le> ?d (hd ?q')"
        using allq [OF last_in_set [OF that]] allq [OF hd_in_set [OF that]] by simp_all
      then show ?thesis by simp
    qed
    show "p \<in> ?seen'" if ne: "?q' \<noteq> []" and pr: "p \<in> reachable g s"
      and pd: "?d p \<le> ?d (hd ?q')" for p
    proof (cases "?d p \<le> ?d u")
      case True
      then show ?thesis using G [OF pr] by simp
    next
      case False
      have hle: "?d (hd ?q') \<le> ?d u + 1" using allq [OF hd_in_set [OF ne]] by simp
      with False pd have dp: "?d p = ?d u + 1" "?d (hd ?q') = ?d u + 1" by simp_all
      have "p \<noteq> s" using dp(1) by (auto simp: dist_start)
      from dist_pred [OF pr this] obtain r where
        r: "r \<in> reachable g s" "(r, p) \<in> ?E" "?d p = ?d r + 1" by blast
      then have dr: "?d r = ?d u" using dp(1) by simp
      then have rs: "r \<in> seen" using G [OF r(1)] by simp
      have "r \<notin> set q"
      proof
        assume rq: "r \<in> set q"
        then have "q \<noteq> []" by auto
        then have "hd ?q' = hd q" by simp
        moreover have "?d (hd q) \<le> ?d r"
          using sq rq \<open>q \<noteq> []\<close> by (cases q) auto
        ultimately show False using dp(2) dr by simp
      qed
      from closed [OF rs this r(2)] show ?thesis .
    qed
  qed
  from bfs_step.IH [OF d sub c li] have
    ih: "sorted (map ?d out)" "\<forall>y \<in> set out. ?d (hd ?q') \<le> ?d y"
    by auto
  have hd_ge: "?d u \<le> ?d (hd ?q')" if "?q' \<noteq> []"
    using allq [OF hd_in_set [OF that]] by simp
  have outne: "out \<noteq> [] \<Longrightarrow> ?q' \<noteq> []"
    using bfs_step.hyps by (auto elim: bfs_order.cases)
  have "\<forall>y \<in> set out. ?d u \<le> ?d y"
  proof
    fix y assume y: "y \<in> set out"
    then have "out \<noteq> []" by auto
    from hd_ge [OF outne [OF this]] ih(2) y show "?d u \<le> ?d y" by force
  qed
  then show ?case using ih(1) by simp
qed

subsection \<open>BFS from its initial state\<close>

lemma marked_replicate: "marked (replicate n False) = {}"
  by (auto simp: marked_def in_range_def)

lemma graph_inv_dests:
  "graph_inv g \<Longrightarrow>
   list_all (list_all (\<lambda>e. in_range (destination e) (nat (vertices g)))) (array g)"
  by (auto simp: graph_inv_def list_all_iff in_range_def)

lemma BFS_main:
  assumes inv: "graph_inv g" and s0: "0 \<le> start" and s1: "start < vertices g"
    and lb: "length buffer = nat (vertices g)"
  shows "\<exists>out. BFS g start buffer = Inr (out @ drop (length out) buffer, length out) \<and>
           bfs_order g {start} [start] out \<and> distinct out \<and> set out = reachable g start \<and>
           sorted (map (dist g start) out) \<and> length out \<le> length buffer"
proof -
  let ?n = "nat (vertices g)"
  let ?v = "(replicate ?n False)[nat start := True]"
  have sr: "in_range start ?n" using s0 s1 by (simp add: in_range_def)
  have sn: "nat start < ?n" using s0 s1 by simp
  have F: "Suc (length (filter Not ?v)) = ?n"
    using filter_Not_update [of "nat start" "replicate ?n False"] sn by simp
  have mv: "marked ?v = {start}"
    using marked_update [of start "replicate ?n False"] sr by (simp add: marked_replicate)
  have "\<exists>out. BFS_loop g ?v [start] buffer 0 =
              Inr (take 0 buffer @ out @ drop (0 + length out) buffer, 0 + length out) \<and>
            bfs_order g (marked ?v) [start] out \<and> 0 + length out \<le> length buffer"
  proof (rule BFS_loop_refines [where n = ?n])
    show "length ?v = ?n" by simp
    show "list_all (\<lambda>v. in_range v ?n) [start]" using sr by simp
    show "0 + length [start] + length (filter Not ?v) \<le> length buffer" using F lb by simp
    show "length (array g) = ?n" using inv by (simp add: graph_inv_def)
    show "list_all (list_all (\<lambda>e. in_range (destination e) ?n)) (array g)"
      using inv by (rule graph_inv_dests)
  qed
  then obtain out where
    run: "BFS_loop g ?v [start] buffer 0 = Inr (out @ drop (length out) buffer, length out)"
    and ord: "bfs_order g {start} [start] out"
    and bound: "length out \<le> length buffer"
    unfolding mv by auto
  have B: "BFS g start buffer = Inr (out @ drop (length out) buffer, length out)"
    using run sr by (simp add: BFS_def Let_def Queue_enqueue_def)
  from bfs_order_props [OF ord] have
    p: "distinct out" "start \<in> set out" "set out \<subseteq> rtrancl (edges g) `` {start}"
      "edges g `` set out \<subseteq> set out"
    by auto
  have "rtrancl (edges g) `` {start} \<subseteq> rtrancl (edges g) `` set out" using p(2) by auto
  also have "\<dots> = set out" using p(4) by (rule Image_closed_trancl)
  finally have r: "set out = reachable g start" using p(3) by (auto simp: reachable_def)
  have "p = start" if "p \<in> reachable g start" "dist g start p \<le> dist g start start" for p
    using dist_path [OF that(1)] that(2) by (simp add: dist_start)
  then have "level_inv g start {start} [start]"
    by (auto simp: level_inv_def reachable_def)
  from bfs_order_levels [OF ord _ _ _ this] have "sorted (map (dist g start) out)" by simp
  with B ord p(1) r bound show ?thesis by blast
qed

subsection \<open>DFS writes a vertex when it marks it\<close>

lemma DFS_loop_unfold_Nil: "DFS_loop g visited [] buffer count = Inr (buffer, count)"
  by (subst DFS_loop.simps) (simp add: Stack_isEmpty_def)

lemma DFS_loop_unfold_Cons:
  "DFS_loop g visited (u # rest) buffer count =
     (if \<not> in_range u (length visited) then Inl OutOfBounds
      else if \<not> visited ! nat u \<and> \<not> count < length buffer then Inl OutOfBounds
      else if \<not> in_range u (length (array g)) then Inl OutOfBounds
      else case DFS_adj_loop (array g ! nat u)
                  (if \<not> visited ! nat u then visited[nat u := True] else visited) rest of
             Inl e \<Rightarrow> Inl e
           | Inr s2 \<Rightarrow>
               DFS_loop g (if \<not> visited ! nat u then visited[nat u := True] else visited) s2
                 (if \<not> visited ! nat u then buffer[count := u] else buffer)
                 (if \<not> visited ! nat u then count + 1 else count))"
  by (subst DFS_loop.simps)
    (simp add: Stack_isEmpty_def Stack_top_def Stack_pop_def getHead_def Let_def)

lemma DFS_adj_loop_ok:
  "list_all (\<lambda>e. in_range (destination e) (length visited)) l \<Longrightarrow>
   \<exists>new. DFS_adj_loop l visited s = Inr (new @ s) \<and> set new \<subseteq> destination ` set l"
proof (induction l arbitrary: s)
  case Nil
  then show ?case by simp
next
  case (Cons temp rest)
  then have r: "in_range (destination temp) (length visited)"
    and l: "list_all (\<lambda>e. in_range (destination e) (length visited)) rest"
    by simp_all
  show ?case
  proof (cases "visited ! nat (destination temp)")
    case True
    from Cons.IH [OF l, of s] True r show ?thesis by (auto simp: Let_def)
  next
    case False
    from Cons.IH [OF l, of "Stack_push (destination temp) s"] obtain new where
      "DFS_adj_loop rest visited (Stack_push (destination temp) s) =
         Inr (new @ Stack_push (destination temp) s)" "set new \<subseteq> destination ` set rest"
      by blast
    then have "DFS_adj_loop (temp # rest) visited s = Inr ((new @ [destination temp]) @ s) \<and>
        set (new @ [destination temp]) \<subseteq> destination ` set (temp # rest)"
      using False r by (auto simp: Let_def Stack_push_def)
    then show ?thesis by blast
  qed
qed

lemma card_marked_less:
  assumes "in_range u (length visited)" and "\<not> visited ! nat u"
  shows "card (marked visited) < length visited"
proof -
  have "marked visited \<subseteq> {0..<int (length visited)} - {u}"
    using assms by (auto simp: marked_def in_range_def)
  then have "card (marked visited) \<le> card ({0..<int (length visited)} - {u})"
    by (intro card_mono) simp_all
  also have "\<dots> < length visited"
    using assms(1) by (auto simp: in_range_def card_Diff_singleton_if)
  finally show ?thesis .
qed

lemma DFS_loop_writes:
  "length visited = n \<Longrightarrow> list_all (\<lambda>v. in_range v n) s \<Longrightarrow>
   distinct (take count buffer) \<Longrightarrow> set (take count buffer) = marked visited \<Longrightarrow>
   count \<le> length buffer \<Longrightarrow> n \<le> length buffer \<Longrightarrow>
   length (array g) = n \<Longrightarrow>
   list_all (list_all (\<lambda>e. in_range (destination e) n)) (array g) \<Longrightarrow>
   \<exists>out. DFS_loop g visited s buffer count =
            Inr (take count buffer @ out @ drop (count + length out) buffer, count + length out) \<and>
          distinct (take count buffer @ out) \<and> list_all (\<lambda>v. in_range v n) out \<and>
          count + length out \<le> length buffer"
proof (induction g visited s buffer count rule: DFS_loop.induct)
  case (1 g visited s buffer count)
  note lv = "1.prems"(1) and la = "1.prems"(7) and dests = "1.prems"(8)
  show ?case
  proof (cases s)
    case Nil
    then show ?thesis
      using "1.prems"(3,5) by (auto simp: DFS_loop_unfold_Nil)
  next
    case (Cons u rest)
    let ?w = "\<not> visited ! nat u"
    let ?visited1 = "if ?w then visited[nat u := True] else visited"
    let ?buffer1 = "if ?w then buffer[count := u] else buffer"
    let ?count1 = "if ?w then count + 1 else count"
    have ur: "in_range u n" using "1.prems"(2) Cons by simp
    then have un: "nat u < length (array g)" using la by (auto simp: in_range_def)
    have cb: "count < length buffer" if "?w"
    proof -
      have "count = card (set (take count buffer))"
        using "1.prems"(3,5) by (simp add: distinct_card)
      also have "\<dots> < length visited"
        using card_marked_less [of u visited] ur lv that "1.prems"(4) by simp
      finally show ?thesis using lv "1.prems"(6) by simp
    qed
    have l1: "length ?visited1 = n" using lv by simp
    have "list_all (\<lambda>e. in_range (destination e) (length ?visited1)) (array g ! nat u)"
      using list_all_nth [OF dests un] l1 by simp
    from DFS_adj_loop_ok [OF this, of rest] obtain new where
      adj: "DFS_adj_loop (array g ! nat u) ?visited1 rest = Inr (new @ rest)"
      and newsub: "set new \<subseteq> destination ` set (array g ! nat u)"
      by blast
    have "\<forall>e \<in> set (array g ! nat u). in_range (destination e) n"
      using list_all_nth [OF dests un] by (simp add: list_all_iff)
    then have s2: "list_all (\<lambda>v. in_range v n) (new @ rest)"
      using newsub "1.prems"(2) Cons by (auto simp: list_all_iff)
    have d1: "distinct (take ?count1 ?buffer1)"
      using cb "1.prems"(3,4) ur lv by (auto simp: take_Suc_update marked_def)
    have m1: "set (take ?count1 ?buffer1) = marked ?visited1"
      using cb "1.prems"(4) ur lv by (auto simp: take_Suc_update marked_update)
    have c1: "?count1 \<le> length ?buffer1" using cb "1.prems"(5) by auto
    have n1: "n \<le> length ?buffer1" using "1.prems"(6) by simp
    have "\<exists>out. DFS_loop g ?visited1 (new @ rest) ?buffer1 ?count1 =
            Inr (take ?count1 ?buffer1 @ out @ drop (?count1 + length out) ?buffer1,
                 ?count1 + length out) \<and>
          distinct (take ?count1 ?buffer1 @ out) \<and> list_all (\<lambda>v. in_range v n) out \<and>
          ?count1 + length out \<le> length ?buffer1"
    proof -
      have A: "\<not> Stack_isEmpty s" using Cons by (simp add: Stack_isEmpty_def)
      have F: "Stack_top s = u" "Stack_pop s = rest"
        using Cons by (simp_all add: Stack_top_def Stack_pop_def)
      have B: "\<not> \<not> in_range (Stack_top s) (length visited)" using ur lv F by simp
      have C: "\<not> (\<not> visited ! nat (Stack_top s) \<and> \<not> count < length buffer)"
        using cb F by auto
      have D: "\<not> \<not> in_range (Stack_top s) (length (array g))" using ur la F by simp
      have E: "DFS_adj_loop (getHead (array g ! nat (Stack_top s)))
            (if \<not> visited ! nat (Stack_top s) then visited[nat (Stack_top s) := True] else visited)
            (Stack_pop s) = Inr (new @ rest)"
        unfolding F getHead_def by (rule adj)
      show ?thesis
        using "1.IH" [OF A refl refl B C refl refl refl D E] l1 s2 d1 m1 c1 n1 la dests
        unfolding F by blast
    qed
    then obtain out where
      run: "DFS_loop g ?visited1 (new @ rest) ?buffer1 ?count1 =
            Inr (take ?count1 ?buffer1 @ out @ drop (?count1 + length out) ?buffer1,
                 ?count1 + length out)"
      and dist: "distinct (take ?count1 ?buffer1 @ out)"
      and rng: "list_all (\<lambda>v. in_range v n) out"
      and bound: "?count1 + length out \<le> length ?buffer1"
      by blast
    have unf: "DFS_loop g visited s buffer count =
        DFS_loop g ?visited1 (new @ rest) ?buffer1 ?count1"
    proof -
      have "DFS_loop g visited (u # rest) buffer count =
          (case DFS_adj_loop (array g ! nat u) ?visited1 rest of
             Inl e \<Rightarrow> Inl e
           | Inr s2 \<Rightarrow> DFS_loop g ?visited1 s2 ?buffer1 ?count1)"
        using cb ur lv la by (subst DFS_loop_unfold_Cons) auto
      then show ?thesis by (simp only: adj Cons sum.case)
    qed
    show ?thesis
    proof (cases ?w)
      case True
      have "DFS_loop g visited s buffer count =
          Inr (take count buffer @ (u # out) @ drop (count + length (u # out)) buffer,
               count + length (u # out))"
        using run True cb [OF True] unfolding unf by (simp add: take_Suc_update)
      moreover have "distinct (take count buffer @ (u # out))"
        using dist True cb [OF True] by (simp add: take_Suc_update)
      moreover have "list_all (\<lambda>v. in_range v n) (u # out)" using rng ur by simp
      moreover have "count + length (u # out) \<le> length buffer" using bound True by simp
      ultimately show ?thesis by blast
    next
      case False
      then show ?thesis using run dist rng bound unfolding unf by auto
    qed
  qed
qed

lemma written_prefix:
  assumes "r = Inr (out @ drop (length out) b, length out)" and "r = Inr (c, k)"
  shows "out = take k c"
proof -
  from assms have "out @ drop (length out) b = c" and "length out = k" by auto
  then show ?thesis by (metis append_eq_conv_conj)
qed

subsection \<open>The traversal claims\<close>

text \<open>
  C1. For a graph that satisfies the class invariant, a start vertex in range and a
  buffer of \<open>n\<close> cells, \<open>BFS\<close> returns without an out-of-range access; the cells it
  wrote, \<open>out\<close>, hold every vertex reachable from \<open>start\<close> exactly once and no other
  vertex; \<open>out\<close> is the dequeue order of the breadth-first traversal that explores the
  neighbours of each dequeued vertex in adjacency-list order, and it lists the vertices
  by their distance from \<open>start\<close>. The adjacency-list order is the most recently
  inserted edge first: one more \<open>addEdge(u, v, w)\<close> puts \<open>v\<close> in front of the neighbours
  of \<open>u\<close> and \<open>u\<close> in front of the neighbours of \<open>v\<close>.
\<close>

theorem BFS_reachable_once_in_bfs_order:
  assumes "graph_inv g" and "0 \<le> start" and "start < vertices g"
    and "length buffer = nat (vertices g)"
  shows "(\<exists>out. BFS g start buffer = Inr (out @ drop (length out) buffer, length out) \<and>
           distinct out \<and> set out = reachable g start \<and>
           bfs_order g {start} [start] out \<and>
           sorted (map (dist g start) out)) \<and>
         (\<forall>u v w x. 0 \<le> u \<and> u < vertices g \<and> 0 \<le> v \<and> v < vertices g \<longrightarrow>
            neighbours (addEdge g u v w) x =
              (if x = v then [u] else []) @ (if x = u then [v] else []) @ neighbours g x)"
  using BFS_main [OF assms] neighbours_addEdge [OF assms(1)] by blast

theorem BFS_reachable_once_in_bfs_order_witness:
  "BFS (addEdges \<lparr>vertices = 5, array = replicate 5 [], AdjMat = replicate 5 (replicate 5 0)\<rparr>
          [(0, 1, 1), (0, 2, 1), (1, 3, 1), (2, 3, 1)]) 0 [7, 7, 7, 7, 7]
     = Inr ([0, 2, 1, 3, 7], 4) \<and>
   reachable (addEdges \<lparr>vertices = 5, array = replicate 5 [], AdjMat = replicate 5 (replicate 5 0)\<rparr>
          [(0, 1, 1), (0, 2, 1), (1, 3, 1), (2, 3, 1)]) 0 = {0, 2, 1, 3} \<and>
   bfs_order (addEdges \<lparr>vertices = 5, array = replicate 5 [], AdjMat = replicate 5 (replicate 5 0)\<rparr>
          [(0, 1, 1), (0, 2, 1), (1, 3, 1), (2, 3, 1)]) {0} [0] [0, 2, 1, 3]"
proof -
  let ?g = "addEdges \<lparr>vertices = 5, array = replicate 5 [], AdjMat = replicate 5 (replicate 5 0)\<rparr>
          [(0, 1, 1), (0, 2, 1), (1, 3, 1), (2, 3, 1)]"
  have inv: "graph_inv ?g" by code_simp
  have v: "(0::int) \<le> 0" "0 < vertices ?g" "length [7, 7, 7, 7, 7 :: int] = nat (vertices ?g)"
    by code_simp+
  have run: "BFS ?g 0 [7, 7, 7, 7, 7] = Inr ([0, 2, 1, 3, 7], 4)" by code_simp
  from BFS_reachable_once_in_bfs_order [OF inv v, THEN conjunct1] obtain out where
    out: "BFS ?g 0 [7, 7, 7, 7, 7] = Inr (out @ drop (length out) [7, 7, 7, 7, 7], length out)"
      "set out = reachable ?g 0" "bfs_order ?g {0} [0] out"
    by blast
  have "out = take 4 [0, 2, 1, 3, 7]" by (rule written_prefix [OF out(1) run])
  then have o: "out = [0, 2, 1, 3]" by simp
  have r: "reachable ?g 0 = {0, 2, 1, 3}" using out(2) unfolding o by auto
  have b: "bfs_order ?g {0} [0] [0, 2, 1, 3]" using out(3) unfolding o .
  show ?thesis using run r b by (intro conjI)
qed

text \<open>
  C9. Under the same conditions \<open>BFS\<close> writes exactly \<open>k\<close> cells, \<open>k\<close> the number of
  vertices reachable from \<open>start\<close> (the cells \<open>0 .. k - 1\<close>, one per dequeued vertex), and
  every cell \<open>i\<close> with \<open>k \<le> i < n\<close> holds after the call what it held before.
\<close>

theorem BFS_count_and_frame:
  assumes "graph_inv g" and "0 \<le> start" and "start < vertices g"
    and "length buffer = nat (vertices g)"
  shows "\<exists>buffer' k. BFS g start buffer = Inr (buffer', k) \<and>
           k = card (reachable g start) \<and>
           set (take k buffer') = reachable g start \<and>
           length buffer' = length buffer \<and>
           (\<forall>i. k \<le> i \<and> i < nat (vertices g) \<longrightarrow> buffer' ! i = buffer ! i)"
proof -
  from BFS_main [OF assms] obtain out where
    run: "BFS g start buffer = Inr (out @ drop (length out) buffer, length out)"
    and d: "distinct out" and s: "set out = reachable g start"
    and b: "length out \<le> length buffer"
    by blast
  have "length out = card (reachable g start)"
    using d s by (metis distinct_card)
  moreover have "length (out @ drop (length out) buffer) = length buffer"
    using b by simp
  moreover have "(out @ drop (length out) buffer) ! i = buffer ! i"
    if "length out \<le> i" "i < nat (vertices g)" for i
    using that b assms(4) by (simp add: nth_append)
  ultimately show ?thesis using run s by auto
qed

theorem BFS_count_and_frame_witness:
  "BFS (addEdges \<lparr>vertices = 5, array = replicate 5 [], AdjMat = replicate 5 (replicate 5 0)\<rparr>
          [(0, 1, 1), (0, 2, 1), (1, 3, 1), (2, 3, 1)]) 0 [7, 7, 7, 7, 8]
     = Inr ([0, 2, 1, 3, 8], 4) \<and>
   card (reachable (addEdges \<lparr>vertices = 5, array = replicate 5 [], AdjMat = replicate 5 (replicate 5 0)\<rparr>
          [(0, 1, 1), (0, 2, 1), (1, 3, 1), (2, 3, 1)]) 0) = 4"
proof -
  let ?g = "addEdges \<lparr>vertices = 5, array = replicate 5 [], AdjMat = replicate 5 (replicate 5 0)\<rparr>
          [(0, 1, 1), (0, 2, 1), (1, 3, 1), (2, 3, 1)]"
  have inv: "graph_inv ?g" by code_simp
  have v: "(0::int) \<le> 0" "0 < vertices ?g" "length [7, 7, 7, 7, 8 :: int] = nat (vertices ?g)"
    by code_simp+
  have run: "BFS ?g 0 [7, 7, 7, 7, 8] = Inr ([0, 2, 1, 3, 8], 4)" by code_simp
  from BFS_count_and_frame [OF inv v] run show ?thesis by auto
qed

text \<open>
  C10. Under the same conditions \<open>DFS\<close> returns without an out-of-range access: every
  buffer write is at an index below \<open>n\<close>. The cells written, \<open>out\<close>, are pairwise
  different vertex ids, so there are at most \<open>n\<close> writes; the cells behind them are as
  before. (A vertex can be on the stack twice; the second pop finds it visited.)
\<close>

theorem DFS_writes_each_vertex_once:
  assumes "graph_inv g" and "0 \<le> start" and "start < vertices g"
    and "length buffer = nat (vertices g)"
  shows "\<exists>out. DFS g start buffer = Inr (out @ drop (length out) buffer, length out) \<and>
           distinct out \<and> length out \<le> nat (vertices g) \<and>
           (\<forall>v \<in> set out. 0 \<le> v \<and> v < vertices g)"
proof -
  let ?n = "nat (vertices g)"
  have sr: "in_range start ?n" using assms(2,3) by (simp add: in_range_def)
  have "\<exists>out. DFS_loop g (replicate ?n False) [start] buffer 0 =
            Inr (take 0 buffer @ out @ drop (0 + length out) buffer, 0 + length out) \<and>
          distinct (take 0 buffer @ out) \<and> list_all (\<lambda>v. in_range v ?n) out \<and>
          0 + length out \<le> length buffer"
  proof (rule DFS_loop_writes [where n = ?n])
    show "length (replicate ?n False) = ?n" by simp
    show "list_all (\<lambda>v. in_range v ?n) [start]" using sr by simp
    show "distinct (take 0 buffer)" by simp
    show "set (take 0 buffer) = marked (replicate ?n False)" by (simp add: marked_replicate)
    show "0 \<le> length buffer" by simp
    show "?n \<le> length buffer" using assms(4) by simp
    show "length (array g) = ?n" using assms(1) by (simp add: graph_inv_def)
    show "list_all (list_all (\<lambda>e. in_range (destination e) ?n)) (array g)"
      using assms(1) by (rule graph_inv_dests)
  qed
  then obtain out where
    run: "DFS_loop g (replicate ?n False) [start] buffer 0 =
            Inr (out @ drop (length out) buffer, length out)"
    and d: "distinct out" and r: "list_all (\<lambda>v. in_range v ?n) out"
    and b: "length out \<le> length buffer"
    by auto
  have "DFS g start buffer = Inr (out @ drop (length out) buffer, length out)"
    using run by (simp add: DFS_def Let_def Stack_push_def)
  moreover have "\<forall>v \<in> set out. 0 \<le> v \<and> v < vertices g"
    using r assms(2,3) by (auto simp: list_all_iff in_range_def)
  ultimately show ?thesis using d b assms(4) by auto
qed

theorem DFS_writes_each_vertex_once_witness:
  "DFS (addEdges \<lparr>vertices = 5, array = replicate 5 [], AdjMat = replicate 5 (replicate 5 0)\<rparr>
          [(0, 1, 1), (0, 2, 1), (1, 3, 1), (2, 3, 1)]) 0 [7, 7, 7, 7, 7]
     = Inr ([0, 1, 3, 2, 7], 4) \<and> distinct [0, 1, 3, 2 :: int]"
proof -
  let ?g = "addEdges \<lparr>vertices = 5, array = replicate 5 [], AdjMat = replicate 5 (replicate 5 0)\<rparr>
          [(0, 1, 1), (0, 2, 1), (1, 3, 1), (2, 3, 1)]"
  have inv: "graph_inv ?g" by code_simp
  have v: "(0::int) \<le> 0" "0 < vertices ?g" "length [7, 7, 7, 7, 7 :: int] = nat (vertices ?g)"
    by code_simp+
  have run: "DFS ?g 0 [7, 7, 7, 7, 7] = Inr ([0, 1, 3, 2, 7], 4)" by code_simp
  from DFS_writes_each_vertex_once [OF inv v] obtain out where
    out: "DFS ?g 0 [7, 7, 7, 7, 7] = Inr (out @ drop (length out) [7, 7, 7, 7, 7], length out)"
      "distinct out"
    by blast
  have "out = take 4 [0, 1, 3, 2, 7]" by (rule written_prefix [OF out(1) run])
  then have o: "out = [0, 1, 3, 2]" by simp
  have d: "distinct [0, 1, 3, 2 :: int]" using out(2) unfolding o .
  show ?thesis using run d by (intro conjI)
qed

text \<open>
  C4. On a fresh graph of 4 vertices with the edges \<open>(0,1,1)\<close>, \<open>(1,2,1)\<close>, \<open>(2,3,1)\<close>
  added in this order, \<open>BFS(0)\<close> and \<open>DFS(0)\<close> each write \<open>0, 1, 2, 3\<close> into the four cells
  of the buffer, whatever the buffer held.
\<close>

theorem path_graph_BFS_DFS:
  "case Graph_new 4 of
     Inl e \<Rightarrow> False
   | Inr g \<Rightarrow>
       BFS (addEdges g [(0, 1, 1), (1, 2, 1), (2, 3, 1)]) 0 [b0, b1, b2, b3]
         = Inr ([0, 1, 2, 3], 4) \<and>
       DFS (addEdges g [(0, 1, 1), (1, 2, 1), (2, 3, 1)]) 0 [b0, b1, b2, b3]
         = Inr ([0, 1, 2, 3], 4)"
  by code_simp

subsection \<open>The examples for Prim's and Dijkstra's algorithm\<close>

text \<open>
  C2. On a fresh graph of 4 vertices with the edges \<open>(0,1,1)\<close>, \<open>(1,2,2)\<close>, \<open>(0,2,4)\<close>,
  \<open>(2,3,1)\<close> added in this order, \<open>PrimsAlgorithm(0, parentBuffer)\<close> returns the parent
  array \<open>-1, 0, 1, 2\<close>, whatever the buffer held: the tree edges are 0-1, 1-2 and 2-3, of
  total weight 4.
\<close>

theorem prims_example:
  "case Graph_new 4 of
     Inl e \<Rightarrow> False
   | Inr g \<Rightarrow>
       (case PrimsAlgorithm (addEdges g [(0, 1, 1), (1, 2, 2), (0, 2, 4), (2, 3, 1)]) 0
               [p0, p1, p2, p3] of
          Inl e \<Rightarrow> False
        | Inr parentBuffer \<Rightarrow>
            parentBuffer = [- 1, 0, 1, 2] \<and>
            tree_edges parentBuffer 0 = [(0, 1), (1, 2), (2, 3)] \<and>
            tree_weight (addEdges g [(0, 1, 1), (1, 2, 2), (0, 2, 4), (2, 3, 1)])
              (tree_edges parentBuffer 0) = 4)"
  by code_simp

text \<open>
  The run of Dijkstra's loop on the three adjacency chains of the example, for any
  number of further vertices behind them and any heap of capacity at least 3.
\<close>

lemma Dijkstra_loop_example:
  assumes arr: "array g = [\<lparr>destination = 2, weight = 1\<rparr>, \<lparr>destination = 1, weight = 4\<rparr>] #
                         [\<lparr>destination = 2, weight = 1\<rparr>, \<lparr>destination = 0, weight = 4\<rparr>] #
                         [\<lparr>destination = 1, weight = 1\<rparr>, \<lparr>destination = 0, weight = 1\<rparr>] # others"
    and c: "3 \<le> c"
  shows "Dijkstra_loop g
           (InsertKey \<lparr>arr = a0 # a1 # a2 # a3 # cells, hsize = 0, capacity = c\<rparr> 0 0)
           (0 # INT_MAX # INT_MAX # tail)
         = Some (Inr (0 # 2 # 1 # tail))"
  using c
  by (simp add: Dijkstra_loop.simps arr InsertKey_def ExtractMin_def Heap_isEmpty_def
      percolateUp.simps percolateDown.simps Let_def in_range_def INT_MAX_def INT_MIN_def
      fits_int_def getHead_def eval_nat_numeral)

lemma replicate_4: "3 \<le> c \<Longrightarrow> replicate (c + 1) x = x # x # x # x # replicate (c - 3) x"
proof -
  assume "3 \<le> c"
  then have "c + 1 = Suc (Suc (Suc (Suc (c - 3))))" by simp
  then show ?thesis by (simp only: replicate_Suc)
qed

lemma vertices_addEdges: "vertices (addEdges g es) = vertices g"
  by (induction g es rule: addEdges.induct) simp_all

lemma DijkstraAlgorithm_overflow:
  "\<not> fits_int (vertices g * vertices g) \<Longrightarrow>
   DijkstraAlgorithm g startIndex distBuffer = Some (Inl SignedOverflow)"
  by (simp add: DijkstraAlgorithm_def)

text \<open>
  C3 as it is stated, for every fresh graph of at least 3 vertices, fails: on a fresh
  graph of 46341 vertices with the three edges, \<open>vertices * vertices\<close> is 2147488281,
  above \<open>INT_MAX\<close>, so the construction of the heap overflows \<open>int\<close> before any cell of
  \<open>distBuffer\<close> is written, and the call does not leave \<open>distBuffer[1] = 2\<close>.
\<close>

theorem dijkstra_example_overflow:
  "Graph_new 46341 =
     Inr \<lparr>vertices = 46341, array = replicate (nat 46341) [],
          AdjMat = replicate (nat 46341) (replicate (nat 46341) 0)\<rparr> \<and>
   DijkstraAlgorithm
     (addEdges \<lparr>vertices = 46341, array = replicate (nat 46341) [],
                 AdjMat = replicate (nat 46341) (replicate (nat 46341) 0)\<rparr>
        [(0, 1, 4), (0, 2, 1), (2, 1, 1)])
     0 (replicate 46341 0) = Some (Inl SignedOverflow)"
proof
  show "Graph_new 46341 =
     Inr \<lparr>vertices = 46341, array = replicate (nat 46341) [],
          AdjMat = replicate (nat 46341) (replicate (nat 46341) 0)\<rparr>"
    unfolding Graph_new_def by simp
  have v: "vertices (addEdges \<lparr>vertices = 46341, array = replicate (nat 46341) [],
                 AdjMat = replicate (nat 46341) (replicate (nat 46341) 0)\<rparr>
        [(0, 1, 4), (0, 2, 1), (2, 1, 1)]) = 46341"
    by (simp only: vertices_addEdges Graph.select_convs)
  have "\<not> fits_int (vertices (addEdges \<lparr>vertices = 46341, array = replicate (nat 46341) [],
                 AdjMat = replicate (nat 46341) (replicate (nat 46341) 0)\<rparr>
        [(0, 1, 4), (0, 2, 1), (2, 1, 1)]) *
      vertices (addEdges \<lparr>vertices = 46341, array = replicate (nat 46341) [],
                 AdjMat = replicate (nat 46341) (replicate (nat 46341) 0)\<rparr>
        [(0, 1, 4), (0, 2, 1), (2, 1, 1)]))"
    unfolding v by (simp add: fits_int_def INT_MAX_def)
  then show "DijkstraAlgorithm
     (addEdges \<lparr>vertices = 46341, array = replicate (nat 46341) [],
                 AdjMat = replicate (nat 46341) (replicate (nat 46341) 0)\<rparr>
        [(0, 1, 4), (0, 2, 1), (2, 1, 1)])
     0 (replicate 46341 0) = Some (Inl SignedOverflow)"
    by (rule DijkstraAlgorithm_overflow)
qed

text \<open>
  C3, amended. On a fresh graph of \<open>n\<close> vertices, \<open>n \<ge> 3\<close> and \<open>n * n\<close> within \<open>int\<close>
  (that is \<open>n \<le> 46340\<close>), with the edges \<open>(0,1,4)\<close>, \<open>(0,2,1)\<close>, \<open>(2,1,1)\<close> added in this
  order, \<open>DijkstraAlgorithm(0, distBuffer)\<close> returns and leaves \<open>distBuffer[1] = 2\<close> (the
  path 0, 2, 1), not 4.
\<close>

theorem dijkstra_example:
  assumes n: "3 \<le> n" and nn: "n * n \<le> INT_MAX" and len: "length distBuffer = nat n"
  shows "case Graph_new n of
           Inl e \<Rightarrow> False
         | Inr g \<Rightarrow>
             (case DijkstraAlgorithm (addEdges g [(0, 1, 4), (0, 2, 1), (2, 1, 1)]) 0 distBuffer of
                None \<Rightarrow> False
              | Some (Inl e) \<Rightarrow> False
              | Some (Inr d) \<Rightarrow>
                  d ! 1 = 2 \<and> d = 0 # 2 # 1 # replicate (nat n - 3) INT_MAX)"
proof -
  define k where "k = nat n - 3"
  have nk: "nat n = Suc (Suc (Suc k))" and n0: "\<not> n < 0" using n by (simp_all add: k_def)
  let ?fresh = "\<lparr>vertices = n, array = replicate (nat n) [],
              AdjMat = replicate (nat n) (replicate (nat n) 0)\<rparr>"
  let ?g = "addEdges ?fresh [(0, 1, 4), (0, 2, 1), (2, 1, 1)]"
  have new: "Graph_new n = Inr ?fresh" using n0 by (simp add: Graph_new_def)
  have arr: "array ?g = [\<lparr>destination = 2, weight = 1\<rparr>, \<lparr>destination = 1, weight = 4\<rparr>] #
                        [\<lparr>destination = 2, weight = 1\<rparr>, \<lparr>destination = 0, weight = 4\<rparr>] #
                        [\<lparr>destination = 1, weight = 1\<rparr>, \<lparr>destination = 0, weight = 1\<rparr>] #
                        replicate k []"
    using n by (simp add: addEdge_def Let_def nk AdjList_AddEdge_def eval_nat_numeral)
  have vs: "vertices ?g = n" by simp
  have "9 \<le> n * n" using n mult_mono [of 3 n 3 n] by simp
  then have c: "3 \<le> nat (n * n)" by simp
  have heap: "Heap_new (nat (n * n)) =
      \<lparr>arr = HNode_default # HNode_default # HNode_default # HNode_default #
               replicate (nat (n * n) - 3) HNode_default,
         hsize = 0, capacity = nat (n * n)\<rparr>"
    unfolding Heap_new_def by (simp only: replicate_4 [OF c])
  have init: "(replicate (nat n) INT_MAX @ drop (nat n) distBuffer)[nat 0 := 0] =
      0 # INT_MAX # INT_MAX # replicate k INT_MAX"
    using len by (simp add: nk)
  have r0: "in_range 0 (length (replicate (nat n) INT_MAX @ drop (nat n) distBuffer))"
    using len by (simp add: in_range_def nk)
  have "0 \<le> n * n" by (rule zero_le_square)
  then have "INT_MIN \<le> n * n" unfolding INT_MIN_def by linarith
  then have fits: "fits_int (n * n)" using nn unfolding fits_int_def by (rule conjI)
  have "DijkstraAlgorithm ?g 0 distBuffer =
      Dijkstra_loop ?g (InsertKey (Heap_new (nat (n * n))) 0 0)
        ((replicate (nat n) INT_MAX @ drop (nat n) distBuffer)[nat 0 := 0])"
    using len r0 fits unfolding DijkstraAlgorithm_def vs by (simp add: Let_def)
  also have "\<dots> = Some (Inr (0 # 2 # 1 # replicate k INT_MAX))"
    unfolding heap init by (rule Dijkstra_loop_example [OF arr c])
  finally show ?thesis
    unfolding new by (simp add: k_def)
qed

theorem dijkstra_example_witness:
  "case Graph_new 5 of
     Inl e \<Rightarrow> False
   | Inr g \<Rightarrow>
       (case DijkstraAlgorithm (addEdges g [(0, 1, 4), (0, 2, 1), (2, 1, 1)]) 0 [9, 9, 9, 9, 9] of
          None \<Rightarrow> False
        | Some (Inl e) \<Rightarrow> False
        | Some (Inr d) \<Rightarrow> d ! 1 = 2 \<and> d = [0, 2, 1, INT_MAX, INT_MAX])"
proof -
  have h: "(3::int) \<le> 5" "(5::int) * 5 \<le> INT_MAX" "length [9, 9, 9, 9, 9 :: int] = nat 5"
    by (simp_all add: INT_MAX_def)
  have r: "0 # 2 # 1 # replicate (nat 5 - 3) INT_MAX = [0, 2, 1, INT_MAX, INT_MAX]"
    by (simp add: eval_nat_numeral)
  show ?thesis
    using dijkstra_example [OF h] unfolding r .
qed

end
